theory Spec2Isabelle
  imports Main "HOL-Library.AList"
begin

section \<open>Tree values\<close>

text \<open>
  The differ of \<^verbatim>\<open>flocker/control/_diffing.py\<close> works on nested persistent values of
  the pyrsistent library: records (\<^verbatim>\<open>PClass\<close>), mappings (\<^verbatim>\<open>PMap\<close>), sets
  (\<^verbatim>\<open>PSet\<close>) and scalars. A scalar is \<^verbatim>\<open>None\<close>, an integer or a string; the
  same scalars are the keys of mappings, the field names of records and the segments of
  paths. A mapping and the fields of a record are association lists and a set is a list:
  the order of the list is the order in which Python iterates over the object.
\<close>

datatype atom = ANone | AInt int | AStr string

type_synonym path = "atom list"

datatype tree =
    Scalar atom
  | PMap "(atom \<times> tree) list"
  | PSet "tree list"
  | PClass string "(atom \<times> tree) list"

text \<open>The exceptions that the code and the library under it raise.\<close>

datatype error =
    AssertionError
  | AttributeError
  | IndexError
  | KeyError
  | TypeError
  | InvariantException

text \<open>Python's \<^verbatim>\<open>type(x)\<close>: a record's type is its class, named by a string.\<close>

datatype pytype = NoneType | IntType | StrType | PMapType | PSetType | ClassType string

fun type_of :: "tree \<Rightarrow> pytype" where
  "type_of (Scalar ANone) = NoneType"
| "type_of (Scalar (AInt i)) = IntType"
| "type_of (Scalar (AStr s)) = StrType"
| "type_of (PMap m) = PMapType"
| "type_of (PSet s) = PSetType"
| "type_of (PClass c f) = ClassType c"

text \<open>
  Python's \<^verbatim>\<open>==\<close> on trees. Two mappings are equal when they have the same keys
  and equal values under each key, two sets when each element of one has an equal element
  in the other, two records when they are of one class and their fields are equal as
  mappings; the order of iteration plays no part.
\<close>

fun py_eq :: "tree \<Rightarrow> tree \<Rightarrow> bool" where
  "py_eq (Scalar a) t = (case t of Scalar b \<Rightarrow> a = b | _ \<Rightarrow> False)"
| "py_eq (PMap m) t =
     (case t of
        PMap m' \<Rightarrow>
          set (map fst m) = set (map fst m') \<and>
          list_all (\<lambda>(k, v). map_of m k = Some v \<longrightarrow>
                      (case map_of m' k of None \<Rightarrow> False | Some w \<Rightarrow> py_eq v w)) m
      | _ \<Rightarrow> False)"
| "py_eq (PSet s) t =
     (case t of
        PSet s' \<Rightarrow>
          list_all (\<lambda>x. list_ex (\<lambda>y. py_eq x y) s') s \<and>
          list_all (\<lambda>y. list_ex (\<lambda>x. py_eq x y) s) s'
      | _ \<Rightarrow> False)"
| "py_eq (PClass c f) t =
     (case t of
        PClass c' f' \<Rightarrow>
          c = c' \<and> set (map fst f) = set (map fst f') \<and>
          list_all (\<lambda>(k, v). map_of f k = Some v \<longrightarrow>
                      (case map_of f' k of None \<Rightarrow> False | Some w \<Rightarrow> py_eq v w)) f
      | _ \<Rightarrow> False)"

section \<open>The persistent collections under the differ\<close>

text \<open>
  The differ stands on pyrsistent, which is not part of the repository; what follows is the
  behaviour of the library calls that the code makes. Three things are abstracted. A
  class is known by its name, and whether its constructor accepts a dictionary of fields
  (declared names, mandatory fields, field types and the class's \<^verbatim>\<open>__invariant__\<close>)
  is a parameter \<open>valid\<close> of every function that can build a record; a rejection is
  the one error \<open>InvariantException\<close>, and field factories and initial values are taken
  to be absent. The library compares by object identity (\<^verbatim>\<open>is\<close>) to decide whether
  a write changed anything; a value model has no identity, so a write through an evolver
  always marks it as changed and the record is rebuilt. A path segment never names a
  method or a built-in attribute of the object it is looked up on.
\<close>

type_synonym invariant = "string \<Rightarrow> (atom \<times> tree) list \<Rightarrow> bool"

text \<open>\<^verbatim>\<open>x in s\<close> for a set \<open>s\<close>.\<close>

definition pset_member :: "tree list \<Rightarrow> tree \<Rightarrow> bool" where
  "pset_member s x = list_ex (\<lambda>y. py_eq y x) s"

text \<open>\<^verbatim>\<open>a.difference(b)\<close>: the elements of \<open>a\<close> that are not in \<open>b\<close>.\<close>

definition pset_difference :: "tree list \<Rightarrow> tree list \<Rightarrow> tree list" where
  "pset_difference a b = filter (\<lambda>x. \<not> pset_member b x) a"

text \<open>
  \<^verbatim>\<open>x.evolver()\<close>: mappings, sets and records have one, a scalar has no such
  attribute. The evolver is modelled by the container it is building.
\<close>

fun evolver :: "tree \<Rightarrow> error + tree" where
  "evolver (Scalar a) = Inl AttributeError"
| "evolver t = Inr t"

text \<open>\<^verbatim>\<open>e.set(key, value)\<close>; the evolver of a set has no method \<^verbatim>\<open>set\<close>.\<close>

fun evolver_set :: "atom \<Rightarrow> tree \<Rightarrow> tree \<Rightarrow> error + tree" where
  "evolver_set k v (PMap m) = Inr (PMap (AList.update k v m))"
| "evolver_set k v (PClass c f) = Inr (PClass c (AList.update k v f))"
| "evolver_set k v (PSet s) = Inl AttributeError"
| "evolver_set k v (Scalar a) = Inl AttributeError"

text \<open>
  \<^verbatim>\<open>e.remove(item)\<close>: a missing key or element is a \<^verbatim>\<open>KeyError\<close> on a mapping
  and on a set, and an \<^verbatim>\<open>AttributeError\<close> on a record.
\<close>

fun evolver_remove :: "tree \<Rightarrow> tree \<Rightarrow> error + tree" where
  "evolver_remove item (PMap m) =
     (case item of
        Scalar k \<Rightarrow> if k \<in> set (map fst m) then Inr (PMap (AList.delete k m)) else Inl KeyError
      | _ \<Rightarrow> Inl KeyError)"
| "evolver_remove item (PSet s) =
     (if pset_member s item then Inr (PSet (filter (\<lambda>y. \<not> py_eq y item) s))
      else Inl KeyError)"
| "evolver_remove item (PClass c f) =
     (case item of
        Scalar k \<Rightarrow>
          if k \<in> set (map fst f) then Inr (PClass c (AList.delete k f)) else Inl AttributeError
      | _ \<Rightarrow> Inl AttributeError)"
| "evolver_remove item (Scalar a) = Inl AttributeError"

text \<open>
  \<^verbatim>\<open>e.add(item)\<close>: only the evolver of a set has the method. The evolver of a
  record looks an unknown attribute up among its fields, which is a \<^verbatim>\<open>KeyError\<close>;
  the evolver of a mapping has no such attribute.
\<close>

fun evolver_add :: "tree \<Rightarrow> tree \<Rightarrow> error + tree" where
  "evolver_add item (PSet s) = Inr (PSet (if pset_member s item then s else s @ [item]))"
| "evolver_add item (PClass c f) = Inl KeyError"
| "evolver_add item t = Inl AttributeError"

text \<open>\<^verbatim>\<open>e[key] = value\<close>, which \<^verbatim>\<open>_update_structure\<close> uses.\<close>

fun evolver_setitem :: "atom \<Rightarrow> tree \<Rightarrow> tree \<Rightarrow> error + tree" where
  "evolver_setitem k v (PSet s) = Inl TypeError"
| "evolver_setitem k v e = evolver_set k v e"

fun is_str :: "atom \<Rightarrow> bool" where
  "is_str (AStr s) = True"
| "is_str a = False"

text \<open>
  \<^verbatim>\<open>e.persistent()\<close> after at least one write. The evolver of a record calls the
  class's constructor with the fields as keyword arguments, which must be strings, and
  the constructor checks the invariant; mappings and sets are not checked.
\<close>

fun persistent :: "invariant \<Rightarrow> tree \<Rightarrow> error + tree" where
  "persistent valid (PClass c f) =
     (if list_ex (\<lambda>k. \<not> is_str k) (map fst f) then Inl TypeError
      else if valid c f then Inr (PClass c f)
      else Inl InvariantException)"
| "persistent valid t = Inr t"

text \<open>
  \<^verbatim>\<open>_get(structure, key, default)\<close> of \<^verbatim>\<open>pyrsistent._transformations\<close>:
  \<^verbatim>\<open>structure[key]\<close> where the structure has \<^verbatim>\<open>__getitem__\<close> (a mapping, a
  string), \<^verbatim>\<open>getattr(structure, key)\<close> otherwise; only \<^verbatim>\<open>KeyError\<close> and
  \<^verbatim>\<open>IndexError\<close> give the default.
\<close>

fun str_getitem :: "string \<Rightarrow> int \<Rightarrow> string option" where
  "str_getitem s i =
     (if 0 \<le> i \<and> i < int (length s) then Some [s ! nat i]
      else if i < 0 \<and> - int (length s) \<le> i then Some [s ! nat (int (length s) + i)]
      else None)"

fun pyrsistent_get :: "tree \<Rightarrow> atom \<Rightarrow> tree \<Rightarrow> error + tree" where
  "pyrsistent_get (PMap m) k d = (case map_of m k of Some v \<Rightarrow> Inr v | None \<Rightarrow> Inr d)"
| "pyrsistent_get (PClass c f) k d =
     (if is_str k then (case map_of f k of Some v \<Rightarrow> Inr v | None \<Rightarrow> Inl AttributeError)
      else Inl TypeError)"
| "pyrsistent_get (PSet s) k d = (if is_str k then Inl AttributeError else Inl TypeError)"
| "pyrsistent_get (Scalar (AStr s)) k d =
     (case k of
        AInt i \<Rightarrow> (case str_getitem s i of Some c \<Rightarrow> Inr (Scalar (AStr c)) | None \<Rightarrow> Inr d)
      | _ \<Rightarrow> Inl TypeError)"
| "pyrsistent_get (Scalar a) k d = (if is_str k then Inl AttributeError else Inl TypeError)"

text \<open>
  \<^verbatim>\<open>_do_to_path(structure, path, command)\<close> with \<^verbatim>\<open>_update_structure\<close> inlined,
  for a path of plain keys and a command that is a value: the child under the first key
  (an empty mapping when a mapping lacks the key) is transformed along the rest of the
  path and written back through the structure's evolver.
\<close>

fun do_to_path :: "invariant \<Rightarrow> tree \<Rightarrow> path \<Rightarrow> tree \<Rightarrow> error + tree" where
  "do_to_path valid structure [] command = Inr command"
| "do_to_path valid structure (k # rest) command =
     (case pyrsistent_get structure k (PMap []) of
        Inl err \<Rightarrow> Inl err
      | Inr v \<Rightarrow>
          (case evolver structure of
             Inl err \<Rightarrow> Inl err
           | Inr e \<Rightarrow>
               (case do_to_path valid v rest command of
                  Inl err \<Rightarrow> Inl err
                | Inr result \<Rightarrow>
                    (case evolver_setitem k result e of
                       Inl err \<Rightarrow> Inl err
                     | Inr e' \<Rightarrow> persistent valid e'))))"

text \<open>\<^verbatim>\<open>obj.transform(path, value)\<close>: mappings and records have the method.\<close>

fun pyrsistent_transform :: "invariant \<Rightarrow> tree \<Rightarrow> path \<Rightarrow> tree \<Rightarrow> error + tree" where
  "pyrsistent_transform valid (Scalar a) p x = Inl AttributeError"
| "pyrsistent_transform valid (PSet s) p x = Inl AttributeError"
| "pyrsistent_transform valid t p x = do_to_path valid t p x"

section \<open>Change operations and the transform proxy\<close>

text \<open>
  The classes \<^verbatim>\<open>_Remove\<close>, \<^verbatim>\<open>_Set\<close> and \<^verbatim>\<open>_Add\<close>, each with its path and its
  payload, and \<^verbatim>\<open>Diff\<close> with its vector of changes.
\<close>

datatype change =
    Remove path tree
  | Set path tree
  | Add path tree

fun change_path :: "change \<Rightarrow> path" where
  "change_path (Remove p i) = p"
| "change_path (Set p v) = p"
| "change_path (Add p i) = p"

datatype Diff = Diff (changes: "change list")

text \<open>
  The closures that the three \<^verbatim>\<open>apply\<close> methods hand to the proxy, to be called
  on an evolver at commit time. The closure of \<^verbatim>\<open>_Set\<close> reads \<^verbatim>\<open>self.path[-1]\<close>
  only when it is called.
\<close>

datatype operation =
    OpRemove tree
  | OpSet path tree
  | OpAdd tree

fun run_operation :: "operation \<Rightarrow> tree \<Rightarrow> error + tree" where
  "run_operation (OpRemove item) e = evolver_remove item e"
| "run_operation (OpSet p v) e = (if p = [] then Inl IndexError else evolver_set (last p) v e)"
| "run_operation (OpAdd item) e = evolver_add item e"

text \<open>The loop \<^verbatim>\<open>for operation in self._operations: operation(evolver)\<close>.\<close>

fun run_operations :: "operation list \<Rightarrow> tree \<Rightarrow> error + tree" where
  "run_operations [] e = Inr e"
| "run_operations (f # fs) e =
     (case run_operation f e of Inl err \<Rightarrow> Inl err | Inr e' \<Rightarrow> run_operations fs e')"

text \<open>The \<^verbatim>\<open>reduce\<close> of \<^verbatim>\<open>commit\<close>, which walks the current path with \<^verbatim>\<open>_get\<close>.\<close>

fun reduce_get :: "path \<Rightarrow> tree \<Rightarrow> error + tree" where
  "reduce_get [] t = Inr t"
| "reduce_get (segment # rest) t =
     (case pyrsistent_get t segment (Scalar ANone) of
        Inl err \<Rightarrow> Inl err
      | Inr t' \<Rightarrow> reduce_get rest t')"

record TransformProxy =
  original_object :: tree
  operations :: "operation list"
  current_path :: "path option"
  current_object :: tree

definition new_proxy :: "tree \<Rightarrow> TransformProxy" where
  "new_proxy original =
     \<lparr>original_object = original, operations = [], current_path = None,
      current_object = original\<rparr>"

text \<open>
  \<^verbatim>\<open>_TransformProxy.commit\<close>: the proxy after the call; what the method returns is
  its \<open>current_object\<close>. Iterating over a current path that is still \<^verbatim>\<open>None\<close> is
  a \<^verbatim>\<open>TypeError\<close>.
\<close>

definition commit :: "invariant \<Rightarrow> TransformProxy \<Rightarrow> error + TransformProxy" where
  "commit valid self =
     (if operations self \<noteq> [] then
        (case current_path self of
           None \<Rightarrow> Inl TypeError
         | Some p \<Rightarrow>
             (case reduce_get p (current_object self) of
                Inl err \<Rightarrow> Inl err
              | Inr target \<Rightarrow>
                  (case evolver target of
                     Inl err \<Rightarrow> Inl err
                   | Inr e \<Rightarrow>
                       (case run_operations (operations self) e of
                          Inl err \<Rightarrow> Inl err
                        | Inr e' \<Rightarrow>
                            (case persistent valid e' of
                               Inl err \<Rightarrow> Inl err
                             | Inr target' \<Rightarrow>
                                 (case pyrsistent_transform valid (current_object self) p target' of
                                    Inl err \<Rightarrow> Inl err
                                  | Inr obj \<Rightarrow>
                                      Inr (self\<lparr>operations := [], current_object := obj\<rparr>)))))))
      else Inr self)"

text \<open>\<^verbatim>\<open>_TransformProxy.transform\<close>: commit when the path changes, then record.\<close>

definition transform :: "invariant \<Rightarrow> TransformProxy \<Rightarrow> path \<Rightarrow> operation \<Rightarrow> error + TransformProxy" where
  "transform valid self p operation =
     (case (if current_path self \<noteq> None \<and> Some p \<noteq> current_path self
            then commit valid self else Inr self) of
        Inl err \<Rightarrow> Inl err
      | Inr self' \<Rightarrow>
          Inr (self'\<lparr>current_path := Some p, operations := operations self' @ [operation]\<rparr>))"

text \<open>The \<^verbatim>\<open>apply\<close> methods of the three changes, called on the proxy.\<close>

fun change_apply :: "invariant \<Rightarrow> change \<Rightarrow> TransformProxy \<Rightarrow> error + TransformProxy" where
  "change_apply valid (Remove p item) obj = transform valid obj p (OpRemove item)"
| "change_apply valid (Set p v) obj = transform valid obj (butlast p) (OpSet p v)"
| "change_apply valid (Add p item) obj = transform valid obj p (OpAdd item)"

text \<open>The loop of \<^verbatim>\<open>Diff.apply\<close> over the changes, and \<^verbatim>\<open>Diff.apply\<close> itself.\<close>

fun apply_changes :: "invariant \<Rightarrow> TransformProxy \<Rightarrow> change list \<Rightarrow> error + TransformProxy" where
  "apply_changes valid proxy [] = Inr proxy"
| "apply_changes valid proxy (c # cs) =
     (if length (change_path c) > 0 then
        (case change_apply valid c proxy of
           Inl err \<Rightarrow> Inl err
         | Inr proxy' \<Rightarrow> apply_changes valid proxy' cs)
      else
        (case c of
           Set p v \<Rightarrow> apply_changes valid (new_proxy v) cs
         | _ \<Rightarrow> Inl AssertionError))"

definition Diff_apply :: "invariant \<Rightarrow> Diff \<Rightarrow> tree \<Rightarrow> error + tree" where
  "Diff_apply valid d obj =
     (case apply_changes valid (new_proxy obj) (changes d) of
        Inl err \<Rightarrow> Inl err
      | Inr proxy \<Rightarrow>
          (case commit valid proxy of
             Inl err \<Rightarrow> Inl err
           | Inr proxy' \<Rightarrow> Inr (current_object proxy')))"

section \<open>The differ and the composer\<close>

text \<open>
  \<^verbatim>\<open>_create_diffs_for_sets\<close>: one \<open>Remove\<close> for each item of
  \<^verbatim>\<open>set_a.difference(set_b)\<close>, then one \<open>Add\<close> for each item of
  \<^verbatim>\<open>set_b.difference(set_a)\<close>.
\<close>

definition create_diffs_for_sets :: "path \<Rightarrow> tree list \<Rightarrow> tree list \<Rightarrow> change list" where
  "create_diffs_for_sets path set_a set_b =
     map (\<lambda>item. Remove path item) (pset_difference set_a set_b) @
     map (\<lambda>item. Add path item) (pset_difference set_b set_a)"

text \<open>
  \<^verbatim>\<open>_create_diffs_for\<close> and \<^verbatim>\<open>_create_diffs_for_mappings\<close>, which call each
  other. The key sets are \<^verbatim>\<open>frozenset\<close>s of the keys, hence without repetition; the
  three loops run over the keys of both mappings, the keys of \<open>mapping_b\<close> alone and
  the keys of \<open>mapping_a\<close> alone. Python iterates over a \<^verbatim>\<open>frozenset\<close> in the order
  of the hashes; here each loop takes the keys in the order of the mapping they come from,
  and nothing proved below rests on the order within a loop. A record is diffed through
  \<^verbatim>\<open>_to_dict()\<close>, the mapping of its fields.
\<close>

function create_diffs_for :: "path \<Rightarrow> tree \<Rightarrow> tree \<Rightarrow> change list"
  and create_diffs_for_mappings ::
    "path \<Rightarrow> (atom \<times> tree) list \<Rightarrow> (atom \<times> tree) list \<Rightarrow> change list"
where
  "create_diffs_for path subobj_a subobj_b =
     (if py_eq subobj_a subobj_b then []
      else if type_of subobj_a \<noteq> type_of subobj_b then [Set path subobj_b]
      else
        (case (subobj_a, subobj_b) of
           (PClass c a_dict, PClass c' b_dict) \<Rightarrow>
             create_diffs_for_mappings path a_dict b_dict
         | (PMap m, PMap m') \<Rightarrow> create_diffs_for_mappings path m m'
         | (PSet s, PSet s') \<Rightarrow> create_diffs_for_sets path s s'
         | _ \<Rightarrow> [Set path subobj_b]))"
| "create_diffs_for_mappings path mapping_a mapping_b =
     (let a_keys = remdups (map fst mapping_a);
          b_keys = remdups (map fst mapping_b)
      in
        concat (map (\<lambda>key.
                  (case map_of mapping_a key of
                     None \<Rightarrow> []
                   | Some va \<Rightarrow>
                       (case map_of mapping_b key of
                          None \<Rightarrow> []
                        | Some vb \<Rightarrow>
                            if \<not> py_eq va vb
                            then create_diffs_for (path @ [key]) va vb
                            else [])))
                (filter (\<lambda>key. key \<in> set b_keys) a_keys)) @
        concat (map (\<lambda>key.
                  (case map_of mapping_b key of
                     None \<Rightarrow> []
                   | Some vb \<Rightarrow> [Set (path @ [key]) vb]))
                (filter (\<lambda>key. key \<notin> set a_keys) b_keys)) @
        map (\<lambda>key. Remove path (Scalar key))
          (filter (\<lambda>key. key \<notin> set b_keys) a_keys))"
  by pat_completeness auto
termination
proof (relation "measure (\<lambda>x. case x of
           Inl (p, a, b) \<Rightarrow> 2 * size a
         | Inr (p, m, m') \<Rightarrow> 2 * size_list (size_prod (\<lambda>x. 0) size) m + 1)", goal_cases)
  case 1
  show ?case by simp
next
  case 2
  then show ?case by auto
next
  case 3
  then show ?case by auto
next
  case (4 p mapping_a mapping_b a_keys b_keys key va vb)
  have "size v < Suc (size_list (size_prod (\<lambda>x. 0) size) m)"
    if "map_of m k = Some v" for m :: "(atom \<times> tree) list" and k v
    using that by (induction m) (auto split: if_splits)
  from this [OF 4(4)] show ?case by simp
qed

declare create_diffs_for.simps [simp del]
declare create_diffs_for_mappings.simps [simp del]

definition create_diff :: "tree \<Rightarrow> tree \<Rightarrow> Diff" where
  "create_diff object_a object_b = Diff (create_diffs_for [] object_a object_b)"

text \<open>\<^verbatim>\<open>compose_diffs\<close>: the \<^verbatim>\<open>reduce\<close> that extends one vector by each diff's changes.\<close>

definition compose_diffs :: "Diff list \<Rightarrow> Diff" where
  "compose_diffs iterable_of_diffs =
     Diff (foldl (\<lambda>x y. x @ changes y) [] iterable_of_diffs)"

section \<open>Notions used to state the properties\<close>

text \<open>
  A list stands for a set when no element of it equals (by \<^verbatim>\<open>==\<close>) a later one.
\<close>

fun is_pset :: "tree list \<Rightarrow> bool" where
  "is_pset [] = True"
| "is_pset (x # xs) = (\<not> pset_member xs x \<and> is_pset xs)"

text \<open>
  What a change hands to \<^verbatim>\<open>_TransformProxy.transform\<close>: the path of the container
  it mutates (for \<open>Set\<close> the path without its last segment) and its closure.
\<close>

fun container_path :: "change \<Rightarrow> path" where
  "container_path (Remove p item) = p"
| "container_path (Set p v) = butlast p"
| "container_path (Add p item) = p"

fun closure :: "change \<Rightarrow> operation" where
  "closure (Remove p item) = OpRemove item"
| "closure (Set p v) = OpSet p v"
| "closure (Add p item) = OpAdd item"

text \<open>
  A path resolves against a tree when the walk of \<^verbatim>\<open>commit\<close> along it raises nothing
  and ends at a value that has an evolver.
\<close>

definition resolves :: "path \<Rightarrow> tree \<Rightarrow> bool" where
  "resolves p t =
     (case reduce_get p t of
        Inl err \<Rightarrow> False
      | Inr target \<Rightarrow> (case evolver target of Inl err \<Rightarrow> False | Inr e \<Rightarrow> True))"

text \<open>
  An invariant of two interdependent fields, for a record class \<^verbatim>\<open>Conf\<close>: field
  \<open>x\<close> is a non-empty string exactly when field \<open>y\<close> is set.
\<close>

definition conf_valid :: invariant where
  "conf_valid c f =
     ((case map_of f (AStr ''x'') of Some (Scalar (AStr n)) \<Rightarrow> n \<noteq> [] | _ \<Rightarrow> False) =
      (map_of f (AStr ''y'') \<noteq> None))"

text \<open>
  The object that \<open>commit\<close> computes, as a function of the three fields of the
  proxy that it reads.
\<close>

definition commit_object ::
  "invariant \<Rightarrow> operation list \<Rightarrow> path option \<Rightarrow> tree \<Rightarrow> error + tree" where
  "commit_object valid ops cp obj =
     (if ops \<noteq> [] then
        (case cp of
           None \<Rightarrow> Inl TypeError
         | Some p \<Rightarrow>
             (case reduce_get p obj of
                Inl err \<Rightarrow> Inl err
              | Inr target \<Rightarrow>
                  (case evolver target of
                     Inl err \<Rightarrow> Inl err
                   | Inr e \<Rightarrow>
                       (case run_operations ops e of
                          Inl err \<Rightarrow> Inl err
                        | Inr e' \<Rightarrow>
                            (case persistent valid e' of
                               Inl err \<Rightarrow> Inl err
                             | Inr target' \<Rightarrow> pyrsistent_transform valid obj p target')))))
      else Inr obj)"

text \<open>
  The proxy \<open>sc\<close> of a composed diff simulates the proxy \<open>ss\<close> of a sequential
  application: \<open>sc\<close> holds the operations of \<open>ss\<close> behind some earlier ones, and
  committing the earlier ones alone gives the object that \<open>ss\<close> works on.
\<close>

definition sim :: "invariant \<Rightarrow> TransformProxy \<Rightarrow> TransformProxy \<Rightarrow> bool" where
  "sim valid sc ss =
     (\<exists>pre. operations sc = pre @ operations ss \<and>
            commit_object valid pre (current_path sc) (current_object sc) =
              Inr (current_object ss) \<and>
            (current_path ss = current_path sc \<or>
             current_path ss = None \<and> operations ss = []))"

section \<open>Equality and the empty diff\<close>

lemma py_eq_refl: "py_eq t t"
proof (induction t)
  case (Scalar a)
  show ?case by simp
next
  case (PMap m)
  have "list_all (\<lambda>(k, v). map_of m k = Some v \<longrightarrow>
          (case map_of m k of None \<Rightarrow> False | Some w \<Rightarrow> py_eq v w)) m"
    unfolding list_all_iff using PMap by (auto simp: snds.simps)
  then show ?case by simp
next
  case (PSet s)
  have "list_all (\<lambda>x. list_ex (\<lambda>y. py_eq x y) s) s"
    unfolding list_all_iff list_ex_iff using PSet by auto
  moreover have "list_all (\<lambda>y. list_ex (\<lambda>x. py_eq x y) s) s"
    unfolding list_all_iff list_ex_iff using PSet by auto
  ultimately show ?case by simp
next
  case (PClass c f)
  have "list_all (\<lambda>(k, v). map_of f k = Some v \<longrightarrow>
          (case map_of f k of None \<Rightarrow> False | Some w \<Rightarrow> py_eq v w)) f"
    unfolding list_all_iff using PClass by (auto simp: snds.simps)
  then show ?case by simp
qed

lemma commit_new_proxy: "commit valid (new_proxy t) = Inr (new_proxy t)"
  by (simp add: commit_def new_proxy_def)

lemma Diff_apply_empty: "Diff_apply valid (Diff []) t = Inr t"
  by (simp add: Diff_apply_def commit_new_proxy) (simp add: new_proxy_def)

text \<open>
  C8. For every tree \<open>a\<close>, \<open>create_diff a a\<close> is the diff with no changes, and
  applying the diff with no changes to \<open>a\<close> returns \<open>a\<close>.
\<close>

theorem create_diff_identity:
  "create_diff a a = Diff [] \<and> Diff_apply valid (Diff []) a = Inr a"
  by (simp add: create_diff_def create_diffs_for.simps py_eq_refl Diff_apply_empty)

theorem create_diff_identity_witness:
  "create_diff (PMap [(AStr ''a'', PSet [Scalar (AInt 1)])])
     (PMap [(AStr ''a'', PSet [Scalar (AInt 1)])]) = Diff [] \<and>
   Diff_apply (\<lambda>c f. True) (Diff []) (PMap [(AStr ''a'', PSet [Scalar (AInt 1)])]) =
     Inr (PMap [(AStr ''a'', PSet [Scalar (AInt 1)])])"
  by (rule create_diff_identity)

text \<open>
  C10. \<open>compose_diffs\<close> of no diffs is the diff with no changes, and applying it to
  any tree \<open>t\<close> returns \<open>t\<close>.
\<close>

theorem compose_diffs_empty:
  "compose_diffs [] = Diff [] \<and> Diff_apply valid (compose_diffs []) t = Inr t"
  by (simp add: compose_diffs_def Diff_apply_empty)

theorem compose_diffs_empty_witness:
  "compose_diffs [] = Diff [] \<and>
   Diff_apply (\<lambda>c f. True) (compose_diffs []) (PSet [Scalar (AInt 1)]) =
     Inr (PSet [Scalar (AInt 1)])"
  by (rule compose_diffs_empty)

section \<open>Round trip\<close>

text \<open>
  C1. The round trip \<open>apply (create_diff a b) a = b\<close> fails where the differ removes
  or adds at the root. The diff of the set \<open>{1}\<close> and the set \<open>{2}\<close> is a
  \<open>Remove\<close> and an \<open>Add\<close> with the empty path, and the diff of the mapping
  \<open>{k: 1}\<close> and the empty mapping is a \<open>Remove\<close> with the empty path;
  \<^verbatim>\<open>Diff.apply\<close> asserts that a change with an empty path is a \<open>Set\<close>.
\<close>

theorem create_diff_root_set_assertion:
  "create_diff (PSet [Scalar (AInt 1)]) (PSet [Scalar (AInt 2)]) =
     Diff [Remove [] (Scalar (AInt 1)), Add [] (Scalar (AInt 2))] \<and>
   Diff_apply valid (create_diff (PSet [Scalar (AInt 1)]) (PSet [Scalar (AInt 2)]))
     (PSet [Scalar (AInt 1)]) = Inl AssertionError \<and>
   create_diff (PMap [(AStr ''k'', Scalar (AInt 1))]) (PMap []) =
     Diff [Remove [] (Scalar (AStr ''k''))] \<and>
   Diff_apply valid (create_diff (PMap [(AStr ''k'', Scalar (AInt 1))]) (PMap []))
     (PMap [(AStr ''k'', Scalar (AInt 1))]) = Inl AssertionError"
  by (simp add: create_diff_def create_diffs_for.simps create_diffs_for_mappings.simps
      create_diffs_for_sets_def pset_difference_def pset_member_def Diff_apply_def)

section \<open>What the differ emits\<close>

lemma pset_member_filter: "pset_member (filter P xs) x \<Longrightarrow> pset_member xs x"
  by (auto simp: pset_member_def list_ex_iff)

lemma is_pset_filter: "is_pset xs \<Longrightarrow> is_pset (filter P xs)"
  by (induction xs) (auto dest: pset_member_filter)

text \<open>
  C5. For sets \<open>S1\<close> and \<open>S2\<close> diffed at a path \<open>p\<close>, the changes are one
  \<open>Remove\<close> at \<open>p\<close> for each element of \<open>S1\<close> that is not in \<open>S2\<close>, followed by
  one \<open>Add\<close> at \<open>p\<close> for each element of \<open>S2\<close> that is not in \<open>S1\<close>: no element
  occurs twice, a common element occurs in no change, and every removal stands before
  every addition.
\<close>

theorem set_diff_ops:
  assumes "is_pset S1" and "is_pset S2"
  shows "\<exists>R A. create_diffs_for_sets p S1 S2 = map (Remove p) R @ map (Add p) A \<and>
           set R = {x \<in> set S1. \<not> pset_member S2 x} \<and>
           set A = {x \<in> set S2. \<not> pset_member S1 x} \<and>
           is_pset R \<and> is_pset A"
proof (intro exI conjI)
  show "create_diffs_for_sets p S1 S2 =
          map (Remove p) (pset_difference S1 S2) @ map (Add p) (pset_difference S2 S1)"
    by (simp add: create_diffs_for_sets_def)
  show "set (pset_difference S1 S2) = {x \<in> set S1. \<not> pset_member S2 x}"
    by (simp add: pset_difference_def)
  show "set (pset_difference S2 S1) = {x \<in> set S2. \<not> pset_member S1 x}"
    by (simp add: pset_difference_def)
  show "is_pset (pset_difference S1 S2)"
    using assms(1) by (simp add: pset_difference_def is_pset_filter)
  show "is_pset (pset_difference S2 S1)"
    using assms(2) by (simp add: pset_difference_def is_pset_filter)
qed

theorem set_diff_ops_witness:
  "is_pset [Scalar (AInt 1), Scalar (AInt 2), Scalar (AInt 3)] \<and>
   is_pset [Scalar (AInt 2), Scalar (AInt 3), Scalar (AInt 4)] \<and>
   (\<exists>R A. create_diffs_for_sets [AStr ''s'']
             [Scalar (AInt 1), Scalar (AInt 2), Scalar (AInt 3)]
             [Scalar (AInt 2), Scalar (AInt 3), Scalar (AInt 4)] =
             map (Remove [AStr ''s'']) R @ map (Add [AStr ''s'']) A \<and>
           set R = {x \<in> set [Scalar (AInt 1), Scalar (AInt 2), Scalar (AInt 3)].
                      \<not> pset_member [Scalar (AInt 2), Scalar (AInt 3), Scalar (AInt 4)] x} \<and>
           set A = {x \<in> set [Scalar (AInt 2), Scalar (AInt 3), Scalar (AInt 4)].
                      \<not> pset_member [Scalar (AInt 1), Scalar (AInt 2), Scalar (AInt 3)] x} \<and>
           is_pset R \<and> is_pset A)"
proof -
  have h1: "is_pset [Scalar (AInt 1), Scalar (AInt 2), Scalar (AInt 3)]"
    by (simp add: pset_member_def)
  have h2: "is_pset [Scalar (AInt 2), Scalar (AInt 3), Scalar (AInt 4)]"
    by (simp add: pset_member_def)
  from set_diff_ops [OF h1 h2, of "[AStr ''s'']"] h1 h2 show ?thesis by blast
qed

lemma concat_map_filter_if:
  "concat (map f (filter P xs)) = concat (map (\<lambda>x. if P x then f x else []) xs)"
  by (induction xs) auto

lemma concat_map_lookup:
  "set xs \<subseteq> dom (map_of M) \<Longrightarrow>
   concat (map (\<lambda>key. (case map_of M key of None \<Rightarrow> [] | Some vb \<Rightarrow> [g key vb])) xs) =
   map (\<lambda>k. g k (the (map_of M k))) xs"
  by (induction xs) auto

text \<open>
  C4. For mappings \<open>M1\<close> and \<open>M2\<close> diffed at a path \<open>p\<close>, the changes are: for each
  key of both whose values differ the recursive diff at \<open>p @ [key]\<close>, then one \<open>Set\<close>
  at \<open>p @ [key]\<close> with the value of \<open>M2\<close> for each key of \<open>M2\<close> alone, then one
  \<open>Remove\<close> at \<open>p\<close> for each key of \<open>M1\<close> alone; each key is visited once, and a
  key of both with equal values contributes nothing.
\<close>

theorem mapping_diff_ops:
  "\<exists>changed added removed.
     create_diffs_for_mappings p M1 M2 =
       concat (map (\<lambda>k. create_diffs_for (p @ [k]) (the (map_of M1 k)) (the (map_of M2 k)))
                 changed) @
       map (\<lambda>k. Set (p @ [k]) (the (map_of M2 k))) added @
       map (\<lambda>k. Remove p (Scalar k)) removed \<and>
     distinct changed \<and>
     set changed = {k \<in> dom (map_of M1) \<inter> dom (map_of M2).
                      \<not> py_eq (the (map_of M1 k)) (the (map_of M2 k))} \<and>
     distinct added \<and> set added = dom (map_of M2) - dom (map_of M1) \<and>
     distinct removed \<and> set removed = dom (map_of M1) - dom (map_of M2)"
proof -
  define a_keys where "a_keys = remdups (map fst M1)"
  define b_keys where "b_keys = remdups (map fst M2)"
  define common where "common = filter (\<lambda>key. key \<in> set b_keys) a_keys"
  define changed where
    "changed = filter (\<lambda>k. \<not> py_eq (the (map_of M1 k)) (the (map_of M2 k))) common"
  define added where "added = filter (\<lambda>key. key \<notin> set a_keys) b_keys"
  define removed where "removed = filter (\<lambda>key. key \<notin> set b_keys) a_keys"
  have ka: "set a_keys = dom (map_of M1)"
    by (simp add: a_keys_def dom_map_of_conv_image_fst)
  have kb: "set b_keys = dom (map_of M2)"
    by (simp add: b_keys_def dom_map_of_conv_image_fst)
  have 1: "concat (map (\<lambda>key.
                  (case map_of M1 key of
                     None \<Rightarrow> []
                   | Some va \<Rightarrow>
                       (case map_of M2 key of
                          None \<Rightarrow> []
                        | Some vb \<Rightarrow>
                            if \<not> py_eq va vb
                            then create_diffs_for (p @ [key]) va vb
                            else []))) common) =
           concat (map (\<lambda>k. create_diffs_for (p @ [k]) (the (map_of M1 k)) (the (map_of M2 k)))
                 changed)"
    unfolding changed_def concat_map_filter_if
    by (rule arg_cong [where f = concat], rule map_cong)
       (auto simp: common_def ka kb split: option.splits)
  have 2: "concat (map (\<lambda>key.
                  (case map_of M2 key of
                     None \<Rightarrow> []
                   | Some vb \<Rightarrow> [Set (p @ [key]) vb])) added) =
           map (\<lambda>k. Set (p @ [k]) (the (map_of M2 k))) added"
    by (rule concat_map_lookup) (auto simp: added_def kb)
  have eq: "create_diffs_for_mappings p M1 M2 =
       concat (map (\<lambda>k. create_diffs_for (p @ [k]) (the (map_of M1 k)) (the (map_of M2 k)))
                 changed) @
       map (\<lambda>k. Set (p @ [k]) (the (map_of M2 k))) added @
       map (\<lambda>k. Remove p (Scalar k)) removed"
    unfolding 1 [symmetric] 2 [symmetric]
    by (simp add: create_diffs_for_mappings.simps Let_def a_keys_def b_keys_def common_def
        added_def removed_def)
  have "distinct changed" "distinct added" "distinct removed"
    by (simp_all add: changed_def common_def added_def removed_def a_keys_def b_keys_def)
  moreover have "set changed = {k \<in> dom (map_of M1) \<inter> dom (map_of M2).
                      \<not> py_eq (the (map_of M1 k)) (the (map_of M2 k))}"
    by (auto simp: changed_def common_def ka kb)
  moreover have "set added = dom (map_of M2) - dom (map_of M1)"
    by (auto simp: added_def ka kb)
  moreover have "set removed = dom (map_of M1) - dom (map_of M2)"
    by (auto simp: removed_def ka kb)
  ultimately show ?thesis using eq by blast
qed

theorem mapping_diff_ops_witness:
  "\<exists>changed added removed.
     create_diffs_for_mappings [AStr ''m'']
       [(AStr ''a'', Scalar (AInt 1)), (AStr ''b'', Scalar (AInt 2))]
       [(AStr ''a'', Scalar (AInt 1)), (AStr ''b'', Scalar (AInt 3)),
        (AStr ''c'', Scalar (AInt 4))] =
       concat (map (\<lambda>k. create_diffs_for ([AStr ''m''] @ [k])
                 (the (map_of [(AStr ''a'', Scalar (AInt 1)), (AStr ''b'', Scalar (AInt 2))] k))
                 (the (map_of [(AStr ''a'', Scalar (AInt 1)), (AStr ''b'', Scalar (AInt 3)),
                               (AStr ''c'', Scalar (AInt 4))] k)))
                 changed) @
       map (\<lambda>k. Set ([AStr ''m''] @ [k])
              (the (map_of [(AStr ''a'', Scalar (AInt 1)), (AStr ''b'', Scalar (AInt 3)),
                            (AStr ''c'', Scalar (AInt 4))] k))) added @
       map (\<lambda>k. Remove [AStr ''m''] (Scalar k)) removed \<and>
     distinct changed \<and>
     set changed =
       {k \<in> dom (map_of [(AStr ''a'', Scalar (AInt 1)), (AStr ''b'', Scalar (AInt 2))]) \<inter>
             dom (map_of [(AStr ''a'', Scalar (AInt 1)), (AStr ''b'', Scalar (AInt 3)),
                          (AStr ''c'', Scalar (AInt 4))]).
          \<not> py_eq (the (map_of [(AStr ''a'', Scalar (AInt 1)), (AStr ''b'', Scalar (AInt 2))] k))
               (the (map_of [(AStr ''a'', Scalar (AInt 1)), (AStr ''b'', Scalar (AInt 3)),
                             (AStr ''c'', Scalar (AInt 4))] k))} \<and>
     distinct added \<and>
     set added =
       dom (map_of [(AStr ''a'', Scalar (AInt 1)), (AStr ''b'', Scalar (AInt 3)),
                    (AStr ''c'', Scalar (AInt 4))]) -
       dom (map_of [(AStr ''a'', Scalar (AInt 1)), (AStr ''b'', Scalar (AInt 2))]) \<and>
     distinct removed \<and>
     set removed =
       dom (map_of [(AStr ''a'', Scalar (AInt 1)), (AStr ''b'', Scalar (AInt 2))]) -
       dom (map_of [(AStr ''a'', Scalar (AInt 1)), (AStr ''b'', Scalar (AInt 3)),
                    (AStr ''c'', Scalar (AInt 4))])"
  by (rule mapping_diff_ops)

section \<open>The loop of apply\<close>

lemma apply_changes_append:
  "apply_changes valid s (xs @ ys) =
     (case apply_changes valid s xs of Inl err \<Rightarrow> Inl err | Inr s' \<Rightarrow> apply_changes valid s' ys)"
  by (induction xs arbitrary: s) (auto split: sum.splits change.splits)

lemma change_apply_eq:
  "change_apply valid c s = transform valid s (container_path c) (closure c)"
  by (cases c) simp_all

lemma apply_changes_same_path:
  assumes "\<forall>c\<in>set run. change_path c \<noteq> [] \<and> container_path c = p"
    and "current_path s = Some p"
  shows "apply_changes valid s run = Inr (s\<lparr>operations := operations s @ map closure run\<rparr>)"
  using assms
proof (induction run arbitrary: s)
  case Nil
  then show ?case by simp
next
  case (Cons c cs)
  have step: "change_apply valid c s = Inr (s\<lparr>operations := operations s @ [closure c]\<rparr>)"
    using Cons.prems by (simp add: change_apply_eq transform_def)
  have "apply_changes valid (s\<lparr>operations := operations s @ [closure c]\<rparr>) cs =
          Inr (s\<lparr>operations := operations s @ [closure c]\<rparr>
                \<lparr>operations := operations (s\<lparr>operations := operations s @ [closure c]\<rparr>)
                     @ map closure cs\<rparr>)"
    by (rule Cons.IH) (use Cons.prems in auto)
  then show ?case using Cons.prems step by simp
qed

lemma apply_changes_batch:
  assumes "\<forall>c\<in>set run. change_path c \<noteq> [] \<and> container_path c = p" and "run \<noteq> []"
  shows "apply_changes valid s run =
     (case (if current_path s \<noteq> None \<and> Some p \<noteq> current_path s
            then commit valid s else Inr s) of
        Inl err \<Rightarrow> Inl err
      | Inr s' \<Rightarrow>
          Inr (s'\<lparr>current_path := Some p, operations := operations s' @ map closure run\<rparr>))"
proof -
  obtain c cs where run: "run = c # cs" using assms(2) by (cases run) auto
  have c: "change_path c \<noteq> []" "container_path c = p"
    and cs: "\<forall>c\<in>set cs. change_path c \<noteq> [] \<and> container_path c = p"
    using assms(1) run by auto
  show ?thesis
  proof (cases "(if current_path s \<noteq> None \<and> Some p \<noteq> current_path s
            then commit valid s else Inr s)")
    case (Inl err)
    then show ?thesis using c by (simp add: run change_apply_eq transform_def)
  next
    case (Inr s')
    let ?s1 = "s'\<lparr>current_path := Some p, operations := operations s' @ [closure c]\<rparr>"
    have "change_apply valid c s = Inr ?s1"
      using Inr c by (simp add: change_apply_eq transform_def)
    moreover have "apply_changes valid ?s1 cs =
        Inr (?s1\<lparr>operations := operations ?s1 @ map closure cs\<rparr>)"
      by (rule apply_changes_same_path [OF cs]) simp
    ultimately show ?thesis using Inr c by (simp add: run)
  qed
qed

lemma Diff_apply_append_restart:
  assumes "apply_changes valid (new_proxy t) pre = Inr s"
  shows "Diff_apply valid (Diff (pre @ Set [] v # post)) t = Diff_apply valid (Diff post) v"
  using assms by (simp add: Diff_apply_def apply_changes_append)

section \<open>Whole-tree replacement\<close>

text \<open>
  C7 (as amended). A \<open>Set\<close> with the empty path that stands with other changes in one
  diff raises nothing of its own; the code has no error for a malformed diff. When the
  other changes stand before it and all address one container, nothing has been committed
  and \<open>apply\<close> returns the replacement value; when they stand after it, they are
  applied to the replacement value.
\<close>

theorem replacement_mixed:
  assumes "\<forall>c\<in>set pre. change_path c \<noteq> [] \<and> container_path c = p"
  shows "Diff_apply valid (Diff (pre @ [Set [] v])) t = Inr v \<and>
         Diff_apply valid (Diff (Set [] v # post)) t = Diff_apply valid (Diff post) v"
proof
  have "\<exists>s. apply_changes valid (new_proxy t) pre = Inr s"
  proof (cases "pre = []")
    case True
    then show ?thesis by simp
  next
    case False
    show ?thesis
      using apply_changes_batch [OF assms False, of valid "new_proxy t"]
      by (simp add: new_proxy_def)
  qed
  then obtain s where "apply_changes valid (new_proxy t) pre = Inr s" ..
  then have "Diff_apply valid (Diff (pre @ Set [] v # [])) t = Diff_apply valid (Diff []) v"
    by (rule Diff_apply_append_restart)
  then show "Diff_apply valid (Diff (pre @ [Set [] v])) t = Inr v"
    by (simp add: Diff_apply_empty)
  show "Diff_apply valid (Diff (Set [] v # post)) t = Diff_apply valid (Diff post) v"
    by (simp add: Diff_apply_def)
qed

text \<open>
  C7 as stated fails: a diff of a \<open>Set\<close> at \<open>[a]\<close> followed by a \<open>Set\<close> with the
  empty path applies without any error.
\<close>

theorem replacement_mixed_counterexample:
  "Diff_apply (\<lambda>c f. True)
     (Diff [Set [AStr ''a''] (Scalar (AInt 1)), Set [] (Scalar (AInt 5))]) (PMap []) =
   Inr (Scalar (AInt 5))"
  by (simp add: Diff_apply_def transform_def new_proxy_def commit_def)

theorem replacement_mixed_witness:
  "Diff_apply (\<lambda>c f. True)
     (Diff ([Set [AStr ''a''] (Scalar (AInt 1)), Set [AStr ''b''] (Scalar (AInt 2))] @
            [Set [] (PSet [])])) (PMap []) = Inr (PSet []) \<and>
   Diff_apply (\<lambda>c f. True)
     (Diff (Set [] (PSet []) # [Add [AStr ''s''] (Scalar (AInt 1))])) (PMap []) =
   Diff_apply (\<lambda>c f. True) (Diff [Add [AStr ''s''] (Scalar (AInt 1))]) (PSet [])"
  by (rule replacement_mixed [where p = "[]"]) simp

text \<open>
  C9 (as amended). When the changes before a \<open>Set\<close> with the empty path were processed
  without an error, the \<open>Set\<close> raises nothing: the proxy is replaced by a new one on
  the \<open>Set\<close>'s value, with no pending operation, and the later changes are applied
  to that value. A \<open>Remove\<close> or an \<open>Add\<close> with the empty path fails the assertion.
\<close>

theorem empty_path_restart:
  assumes "apply_changes valid (new_proxy t) pre = Inr s"
  shows "apply_changes valid (new_proxy t) (pre @ [Set [] v]) = Inr (new_proxy v) \<and>
         Diff_apply valid (Diff (pre @ Set [] v # post)) t = Diff_apply valid (Diff post) v \<and>
         Diff_apply valid (Diff (pre @ Remove [] i # post)) t = Inl AssertionError \<and>
         Diff_apply valid (Diff (pre @ Add [] i # post)) t = Inl AssertionError"
  using assms by (simp add: Diff_apply_def apply_changes_append)

theorem empty_path_restart_witness:
  "apply_changes (\<lambda>c f. True) (new_proxy (PMap []))
     [Set [AStr ''a'', AStr ''b''] (Scalar (AInt 1))] =
     Inr \<lparr>original_object = PMap [],
          operations = [OpSet [AStr ''a'', AStr ''b''] (Scalar (AInt 1))],
          current_path = Some [AStr ''a''], current_object = PMap []\<rparr> \<and>
   apply_changes (\<lambda>c f. True) (new_proxy (PMap []))
     ([Set [AStr ''a'', AStr ''b''] (Scalar (AInt 1))] @ [Set [] (PSet [])]) =
     Inr (new_proxy (PSet [])) \<and>
   Diff_apply (\<lambda>c f. True)
     (Diff ([Set [AStr ''a'', AStr ''b''] (Scalar (AInt 1))] @
            Set [] (PSet []) # [Add [AStr ''s''] (Scalar (AInt 2))])) (PMap []) =
     Diff_apply (\<lambda>c f. True) (Diff [Add [AStr ''s''] (Scalar (AInt 2))]) (PSet []) \<and>
   Diff_apply (\<lambda>c f. True)
     (Diff ([Set [AStr ''a'', AStr ''b''] (Scalar (AInt 1))] @
            Remove [] (Scalar (AInt 3)) # [Add [AStr ''s''] (Scalar (AInt 2))])) (PMap []) =
     Inl AssertionError \<and>
   Diff_apply (\<lambda>c f. True)
     (Diff ([Set [AStr ''a'', AStr ''b''] (Scalar (AInt 1))] @
            Add [] (Scalar (AInt 3)) # [Add [AStr ''s''] (Scalar (AInt 2))])) (PMap []) =
     Inl AssertionError"
proof -
  have h: "apply_changes (\<lambda>c f. True) (new_proxy (PMap []))
     [Set [AStr ''a'', AStr ''b''] (Scalar (AInt 1))] =
     Inr \<lparr>original_object = PMap [],
          operations = [OpSet [AStr ''a'', AStr ''b''] (Scalar (AInt 1))],
          current_path = Some [AStr ''a''], current_object = PMap []\<rparr>"
    by (simp add: transform_def new_proxy_def)
  from empty_path_restart [OF h] h show ?thesis by blast
qed

text \<open>
  C9 as stated fails: the changes before the \<open>Set\<close> with the empty path can raise. The
  second change below has another container path than the first, so the first is
  committed, and its path \<open>[a]\<close> leads to nothing in the empty mapping.
\<close>

theorem empty_path_restart_counterexample:
  "Diff_apply (\<lambda>c f. True)
     (Diff [Set [AStr ''a'', AStr ''b''] (Scalar (AInt 1)),
            Set [AStr ''c'', AStr ''d''] (Scalar (AInt 2)),
            Set [] (Scalar (AInt 5))]) (PMap []) = Inl AttributeError"
  by (simp add: Diff_apply_def transform_def new_proxy_def commit_def)


section \<open>Paths that do not resolve\<close>

lemma pyrsistent_get_error:
  "pyrsistent_get t k d = Inl err \<Longrightarrow> err = AttributeError \<or> err = TypeError"
  by (cases "(t, k, d)" rule: pyrsistent_get.cases)
     (auto split: if_splits option.splits atom.splits)

lemma reduce_get_error:
  "reduce_get p t = Inl err \<Longrightarrow> err = AttributeError \<or> err = TypeError"
  by (induction p arbitrary: t) (auto split: sum.splits dest: pyrsistent_get_error)

lemma evolver_error: "evolver t = Inl err \<Longrightarrow> err = AttributeError"
  by (cases t) auto

lemma commit_unresolved:
  assumes "operations s \<noteq> []" and "current_path s = Some q"
    and "\<not> resolves q (current_object s)"
  shows "commit valid s = Inl AttributeError \<or> commit valid s = Inl TypeError"
  using assms
  by (auto simp: commit_def resolves_def split: sum.splits
      dest: reduce_get_error evolver_error)

lemma apply_changes_unresolved:
  assumes "operations s \<noteq> []" and "current_path s = Some q"
    and "\<not> resolves q (current_object s)"
    and "\<forall>c\<in>set cs. change_path c \<noteq> []"
  shows "(case apply_changes valid s cs of
            Inl err \<Rightarrow> Inl err
          | Inr s' \<Rightarrow> (case commit valid s' of Inl err \<Rightarrow> Inl err
                        | Inr s'' \<Rightarrow> Inr (current_object s''))) \<in>
         {Inl AttributeError, Inl TypeError}"
  using assms
proof (induction cs arbitrary: s)
  case Nil
  then show ?case using commit_unresolved [of s q valid] by auto
next
  case (Cons c cs)
  show ?case
  proof (cases "Some (container_path c) = current_path s")
    case True
    let ?s1 = "s\<lparr>operations := operations s @ [closure c]\<rparr>"
    have step: "change_apply valid c s = Inr ?s1"
      using True Cons.prems(2) by (simp add: change_apply_eq transform_def)
    have "(case apply_changes valid ?s1 cs of
            Inl err \<Rightarrow> Inl err
          | Inr s' \<Rightarrow> (case commit valid s' of Inl err \<Rightarrow> Inl err
                        | Inr s'' \<Rightarrow> Inr (current_object s''))) \<in>
         {Inl AttributeError, Inl TypeError}"
      by (rule Cons.IH) (use Cons.prems in auto)
    then show ?thesis using step Cons.prems(4) by simp
  next
    case False
    have "commit valid s = Inl AttributeError \<or> commit valid s = Inl TypeError"
      using Cons.prems by (intro commit_unresolved) auto
    then have "change_apply valid c s = Inl AttributeError \<or>
               change_apply valid c s = Inl TypeError"
      using False Cons.prems(2) by (auto simp: change_apply_eq transform_def)
    then show ?thesis using Cons.prems(4) by auto
  qed
qed

text \<open>
  C6 (as amended). Let a change with a non-empty path be recorded without an error, let
  its container path not resolve against the proxy's current object, and let every
  later change have a non-empty path. Then \<open>apply\<close> fails, with the
  \<^verbatim>\<open>AttributeError\<close> or the \<^verbatim>\<open>TypeError\<close> that the library's lookup raises;
  there is no error of the code's own for this.
\<close>

theorem unresolved_path_fails:
  assumes "apply_changes valid (new_proxy t) pre = Inr s"
    and "change_path c \<noteq> []"
    and "change_apply valid c s = Inr s1"
    and "\<not> resolves (container_path c) (current_object s1)"
    and "\<forall>c'\<in>set post. change_path c' \<noteq> []"
  shows "Diff_apply valid (Diff (pre @ c # post)) t = Inl AttributeError \<or>
         Diff_apply valid (Diff (pre @ c # post)) t = Inl TypeError"
proof -
  have s1: "operations s1 \<noteq> []" "current_path s1 = Some (container_path c)"
    using assms(3) by (auto simp: change_apply_eq transform_def split: sum.splits)
  have "Diff_apply valid (Diff (pre @ c # post)) t =
          (case apply_changes valid s1 post of
            Inl err \<Rightarrow> Inl err
          | Inr s' \<Rightarrow> (case commit valid s' of Inl err \<Rightarrow> Inl err
                        | Inr s'' \<Rightarrow> Inr (current_object s'')))"
    using assms(1,2,3) by (simp add: Diff_apply_def apply_changes_append)
  then show ?thesis
    using apply_changes_unresolved [OF s1 assms(4,5), of valid] by auto
qed

theorem unresolved_path_fails_witness:
  "apply_changes (\<lambda>c f. True) (new_proxy (PMap [(AStr ''m'', PMap [])]))
     [Set [AStr ''m'', AStr ''k''] (Scalar (AInt 1))] =
     Inr \<lparr>original_object = PMap [(AStr ''m'', PMap [])],
          operations = [OpSet [AStr ''m'', AStr ''k''] (Scalar (AInt 1))],
          current_path = Some [AStr ''m''],
          current_object = PMap [(AStr ''m'', PMap [])]\<rparr> \<and>
   \<not> resolves [AStr ''x''] (PMap [(AStr ''m'', PMap [(AStr ''k'', Scalar (AInt 1))])]) \<and>
   Diff_apply (\<lambda>c f. True)
     (Diff ([Set [AStr ''m'', AStr ''k''] (Scalar (AInt 1))] @
            Remove [AStr ''x''] (Scalar (AInt 2)) #
            [Set [AStr ''m'', AStr ''j''] (Scalar (AInt 3))]))
     (PMap [(AStr ''m'', PMap [])]) = Inl AttributeError"
proof -
  let ?t = "PMap [(AStr ''m'', PMap [])]"
  let ?t1 = "PMap [(AStr ''m'', PMap [(AStr ''k'', Scalar (AInt 1))])]"
  let ?s = "\<lparr>original_object = ?t,
          operations = [OpSet [AStr ''m'', AStr ''k''] (Scalar (AInt 1))],
          current_path = Some [AStr ''m''], current_object = ?t\<rparr>"
  let ?s1 = "\<lparr>original_object = ?t,
          operations = [OpRemove (Scalar (AInt 2))],
          current_path = Some [AStr ''x''], current_object = ?t1\<rparr>"
  have h1: "apply_changes (\<lambda>c f. True) (new_proxy ?t)
     [Set [AStr ''m'', AStr ''k''] (Scalar (AInt 1))] = Inr ?s"
    by (simp add: transform_def new_proxy_def)
  have h2: "change_path (Remove [AStr ''x''] (Scalar (AInt 2))) \<noteq> []" by simp
  have h3: "change_apply (\<lambda>c f. True) (Remove [AStr ''x''] (Scalar (AInt 2))) ?s = Inr ?s1"
    by (simp add: transform_def commit_def)
  have h4: "\<not> resolves (container_path (Remove [AStr ''x''] (Scalar (AInt 2))))
              (current_object ?s1)"
    by (simp add: resolves_def)
  have h5: "\<forall>c'\<in>set [Set [AStr ''m'', AStr ''j''] (Scalar (AInt 3))]. change_path c' \<noteq> []"
    by simp
  have e: "Diff_apply (\<lambda>c f. True)
     (Diff ([Set [AStr ''m'', AStr ''k''] (Scalar (AInt 1))] @
            Remove [AStr ''x''] (Scalar (AInt 2)) #
            [Set [AStr ''m'', AStr ''j''] (Scalar (AInt 3))])) ?t \<noteq> Inl TypeError"
    by (simp add: Diff_apply_def transform_def new_proxy_def commit_def)
  from unresolved_path_fails [OF h1 h2 h3 h4 h5] e h1 h4 show ?thesis by simp
qed

text \<open>
  C6 as stated fails. The path \<open>[a]\<close> does not resolve against the empty mapping,
  yet a later \<open>Set\<close> with the empty path discards the pending removal and
  \<open>apply\<close> succeeds; without it the error is an \<^verbatim>\<open>AttributeError\<close>. And a
  diff whose only path resolves is not sure to apply: removing a key that the mapping at
  \<open>[m]\<close> does not have is a \<^verbatim>\<open>KeyError\<close>.
\<close>

theorem unresolved_path_fails_counterexample:
  "\<not> resolves [AStr ''a''] (PMap []) \<and>
   Diff_apply (\<lambda>c f. True)
     (Diff [Remove [AStr ''a''] (Scalar (AInt 1)), Set [] (Scalar (AInt 5))]) (PMap []) =
     Inr (Scalar (AInt 5)) \<and>
   Diff_apply (\<lambda>c f. True) (Diff [Remove [AStr ''a''] (Scalar (AInt 1))]) (PMap []) =
     Inl AttributeError \<and>
   resolves [AStr ''m''] (PMap [(AStr ''m'', PMap [])]) \<and>
   Diff_apply (\<lambda>c f. True) (Diff [Remove [AStr ''m''] (Scalar (AStr ''k''))])
     (PMap [(AStr ''m'', PMap [])]) = Inl KeyError"
  by (simp add: resolves_def Diff_apply_def transform_def new_proxy_def commit_def)

section \<open>Batches\<close>






section \<open>Composition\<close>

lemma commit_eq:
  "commit valid s =
     (case commit_object valid (operations s) (current_path s) (current_object s) of
        Inl err \<Rightarrow> Inl err
      | Inr obj \<Rightarrow> Inr (s\<lparr>operations := [], current_object := obj\<rparr>))"
  by (simp add: commit_def commit_object_def split: option.splits sum.splits)

lemma evolver_Inr: "evolver t = Inr e \<Longrightarrow> e = t"
  by (cases t) auto

lemma persistent_Inr: "persistent valid e = Inr t \<Longrightarrow> t = e"
  by (cases e) (auto split: if_splits)

lemma run_operations_append:
  "run_operations (xs @ ys) e =
     (case run_operations xs e of Inl err \<Rightarrow> Inl err | Inr e' \<Rightarrow> run_operations ys e')"
  by (induction xs arbitrary: e) (auto split: sum.splits)

lemma do_to_path_get:
  "do_to_path valid t p x = Inr t1 \<Longrightarrow> reduce_get p t1 = Inr x"
proof (induction p arbitrary: t t1)
  case Nil
  then show ?case by simp
next
  case (Cons k rest)
  show ?case
  proof (cases t)
    case (Scalar a)
    then show ?thesis using Cons.prems by (auto split: sum.splits)
  next
    case (PMap m)
    then obtain v r where r: "do_to_path valid v rest x = Inr r"
      and t1: "t1 = PMap (AList.update k r m)"
      using Cons.prems by (auto split: sum.splits option.splits)
    from Cons.IH [OF r] show ?thesis by (simp add: t1 update_conv')
  next
    case (PSet s)
    then show ?thesis using Cons.prems by (auto split: sum.splits if_splits)
  next
    case (PClass c f)
    then obtain v r where r: "do_to_path valid v rest x = Inr r"
      and t1: "t1 = PClass c (AList.update k r f)" and k: "is_str k"
      using Cons.prems by (auto split: sum.splits option.splits if_splits)
    from Cons.IH [OF r] show ?thesis using k by (simp add: t1 update_conv')
  qed
qed

lemma do_to_path_twice:
  "do_to_path valid t p x = Inr t1 \<Longrightarrow> do_to_path valid t1 p y = do_to_path valid t p y"
proof (induction p arbitrary: t t1)
  case Nil
  then show ?case by simp
next
  case (Cons k rest)
  show ?case
  proof (cases t)
    case (Scalar a)
    then show ?thesis using Cons.prems by (auto split: sum.splits)
  next
    case (PMap m)
    then obtain v r where v: "pyrsistent_get t k (PMap []) = Inr v"
      and r: "do_to_path valid v rest x = Inr r"
      and t1: "t1 = PMap (AList.update k r m)"
      using Cons.prems by (auto split: sum.splits option.splits)
    have "do_to_path valid r rest y = do_to_path valid v rest y"
      by (rule Cons.IH [OF r])
    then show ?thesis using v by (simp add: t1 PMap update_conv' split: sum.splits)
  next
    case (PSet s)
    then show ?thesis using Cons.prems by (auto split: sum.splits if_splits)
  next
    case (PClass c f)
    then obtain v r where v: "pyrsistent_get t k (PMap []) = Inr v"
      and r: "do_to_path valid v rest x = Inr r"
      and t1: "t1 = PClass c (AList.update k r f)" and k: "is_str k"
      using Cons.prems by (auto split: sum.splits option.splits if_splits)
    have "do_to_path valid r rest y = do_to_path valid v rest y"
      by (rule Cons.IH [OF r])
    then show ?thesis using v k
      by (simp add: t1 PClass update_conv' split: sum.splits del: persistent.simps)
  qed
qed


lemma do_to_path_container:
  "do_to_path valid t (k # rest) x = Inr t1 \<Longrightarrow>
   pyrsistent_transform valid t1 p y = do_to_path valid t1 p y"
  by (cases t) (auto split: sum.splits option.splits if_splits dest!: persistent_Inr)

lemma transform_get:
  "pyrsistent_transform valid t p x = Inr t1 \<Longrightarrow> reduce_get p t1 = Inr x"
  by (cases t) (auto dest: do_to_path_get)

lemma transform_twice:
  assumes "pyrsistent_transform valid t p x = Inr t1"
    and "pyrsistent_transform valid t1 p y = Inr t2"
  shows "pyrsistent_transform valid t p y = Inr t2"
proof (cases p)
  case Nil
  then show ?thesis using assms by (cases t; cases x) auto
next
  case (Cons k rest)
  have d: "do_to_path valid t p x = Inr t1" using assms(1) by (cases t) auto
  then have "pyrsistent_transform valid t1 p y = do_to_path valid t1 p y"
    unfolding Cons by (rule do_to_path_container)
  also have "\<dots> = do_to_path valid t p y" using d by (rule do_to_path_twice)
  also have "\<dots> = pyrsistent_transform valid t p y" using assms(1) by (cases t) auto
  finally show ?thesis using assms(2) by simp
qed

lemma commit_object_merge:
  assumes "commit_object valid pre (Some p) obj0 = Inr obj1"
    and "pre \<noteq> []" and "ops \<noteq> []"
    and "commit_object valid ops (Some p) obj1 = Inr obj2"
  shows "commit_object valid (pre @ ops) (Some p) obj0 = Inr obj2"
proof -
  from assms(1,2) obtain tg0 ev0 e1 tg1 where
    g0: "reduce_get p obj0 = Inr tg0" and ev0': "evolver tg0 = Inr ev0"
    and r1': "run_operations pre ev0 = Inr e1" and p1': "persistent valid e1 = Inr tg1"
    and t1': "pyrsistent_transform valid obj0 p tg1 = Inr obj1"
    by (auto simp: commit_object_def split: sum.splits)
  have ev0: "evolver tg0 = Inr tg0" and r1: "run_operations pre tg0 = Inr e1"
    and t1: "pyrsistent_transform valid obj0 p e1 = Inr obj1"
    using ev0' r1' p1' t1' evolver_Inr [OF ev0'] persistent_Inr [OF p1'] by auto
  have g1: "reduce_get p obj1 = Inr e1" using t1 by (rule transform_get)
  from assms(3,4) g1 obtain ev1 e2 tg2 where
    ev1': "evolver e1 = Inr ev1"
    and r2': "run_operations ops ev1 = Inr e2" and p2': "persistent valid e2 = Inr tg2"
    and t2': "pyrsistent_transform valid obj1 p tg2 = Inr obj2"
    by (auto simp: commit_object_def split: sum.splits)
  have r2: "run_operations ops e1 = Inr e2" and p2: "persistent valid e2 = Inr e2"
    and t2: "pyrsistent_transform valid obj1 p e2 = Inr obj2"
    using ev1' r2' p2' t2' evolver_Inr [OF ev1'] persistent_Inr [OF p2'] by auto
  have "run_operations (pre @ ops) tg0 = Inr e2"
    by (simp add: run_operations_append r1 r2)
  moreover have "pyrsistent_transform valid obj0 p e2 = Inr obj2"
    using t1 t2 by (rule transform_twice)
  ultimately show ?thesis
    using g0 ev0 p2 assms(2) by (simp add: commit_object_def)
qed

lemma commit_object_Nil [simp]: "commit_object valid [] cp obj = Inr obj"
  by (simp add: commit_object_def)

lemma commit_object_None: "commit_object valid ops None obj = Inr r \<Longrightarrow> ops = []"
  by (auto simp: commit_object_def split: if_splits)

lemma sim_commit:
  assumes "sim valid sc ss"
    and "commit_object valid (operations ss) (current_path ss) (current_object ss) = Inr r"
  shows "commit_object valid (operations sc) (current_path sc) (current_object sc) = Inr r"
proof -
  from assms(1) obtain pre where ops: "operations sc = pre @ operations ss"
    and c: "commit_object valid pre (current_path sc) (current_object sc) =
              Inr (current_object ss)"
    and cp: "current_path ss = current_path sc \<or>
             current_path ss = None \<and> operations ss = []"
    unfolding sim_def by blast
  show ?thesis
  proof (cases "operations ss = []")
    case True
    then show ?thesis using assms(2) ops c by simp
  next
    case False
    then have eq: "current_path ss = current_path sc" using cp by auto
    show ?thesis
    proof (cases "pre = []")
      case True
      then show ?thesis using assms(2) ops c eq by simp
    next
      case pre: False
      then obtain p where p: "current_path sc = Some p"
        using c commit_object_None [of valid pre "current_object sc"]
        by (cases "current_path sc") auto
      show ?thesis
        using commit_object_merge [OF c [unfolded p] pre False assms(2) [unfolded eq p]]
        by (simp add: ops p)
    qed
  qed
qed


lemma sim_refl: "sim valid s s"
  unfolding sim_def by (rule exI [of _ "[]"]) simp

lemma sim_step:
  assumes "sim valid sc ss" and "transform valid ss q f = Inr ss1"
  shows "\<exists>sc1. transform valid sc q f = Inr sc1 \<and> sim valid sc1 ss1"
proof -
  from assms(1) obtain pre where ops: "operations sc = pre @ operations ss"
    and c: "commit_object valid pre (current_path sc) (current_object sc) =
              Inr (current_object ss)"
    and cp: "current_path ss = current_path sc \<or>
             current_path ss = None \<and> operations ss = []"
    unfolding sim_def by blast
  show ?thesis
  proof (cases "current_path ss \<noteq> None \<and> Some q \<noteq> current_path ss")
    case True
    then have eq: "current_path sc = current_path ss" using cp by auto
    from assms(2) True obtain r where
      cr: "commit_object valid (operations ss) (current_path ss) (current_object ss) = Inr r"
      and ss1: "ss1 = ss\<lparr>operations := [f], current_object := r, current_path := Some q\<rparr>"
      by (auto simp: transform_def commit_eq split: sum.splits)
    have "commit_object valid (operations sc) (current_path sc) (current_object sc) = Inr r"
      using assms(1) cr by (rule sim_commit)
    then have "transform valid sc q f =
        Inr (sc\<lparr>operations := [f], current_object := r, current_path := Some q\<rparr>)"
      using True eq by (simp add: transform_def commit_eq)
    moreover have
      "sim valid (sc\<lparr>operations := [f], current_object := r, current_path := Some q\<rparr>) ss1"
      unfolding sim_def by (rule exI [of _ "[]"]) (simp add: ss1)
    ultimately show ?thesis by blast
  next
    case False
    then have ss1: "ss1 = ss\<lparr>current_path := Some q, operations := operations ss @ [f]\<rparr>"
      using assms(2) by (auto simp: transform_def)
    show ?thesis
    proof (cases "current_path sc \<noteq> None \<and> Some q \<noteq> current_path sc")
      case True
      then have b: "current_path ss = None" "operations ss = []" using cp False by auto
      then have "commit_object valid (operations sc) (current_path sc) (current_object sc) =
                   Inr (current_object ss)"
        using c ops by simp
      then have "transform valid sc q f =
        Inr (sc\<lparr>operations := [f], current_object := current_object ss,
                current_path := Some q\<rparr>)"
        using True by (simp add: transform_def commit_eq)
      moreover have
        "sim valid (sc\<lparr>operations := [f], current_object := current_object ss,
                       current_path := Some q\<rparr>) ss1"
        unfolding sim_def by (rule exI [of _ "[]"]) (simp add: ss1 b)
      ultimately show ?thesis by blast
    next
      case nc: False
      then have t: "transform valid sc q f =
          Inr (sc\<lparr>current_path := Some q, operations := operations sc @ [f]\<rparr>)"
        by (auto simp: transform_def)
      have "commit_object valid pre (Some q) (current_object sc) = Inr (current_object ss)"
      proof (cases "current_path sc")
        case None
        then have "pre = []" using c commit_object_None by auto
        then show ?thesis using c by simp
      next
        case (Some p')
        then show ?thesis using c nc by auto
      qed
      then have "sim valid (sc\<lparr>current_path := Some q, operations := operations sc @ [f]\<rparr>) ss1"
        unfolding sim_def by (intro exI [of _ pre]) (simp add: ss1 ops)
      then show ?thesis using t by blast
    qed
  qed
qed

lemma sim_apply_changes:
  assumes "sim valid sc ss" and "apply_changes valid ss cs = Inr ss'"
  shows "\<exists>sc'. apply_changes valid sc cs = Inr sc' \<and> sim valid sc' ss'"
  using assms
proof (induction cs arbitrary: sc ss)
  case Nil
  then show ?case by simp
next
  case (Cons c cs)
  show ?case
  proof (cases "change_path c = []")
    case True
    then obtain v where c: "c = Set [] v" and r: "apply_changes valid (new_proxy v) cs = Inr ss'"
      using Cons.prems(2) by (cases c) auto
    from Cons.IH [OF sim_refl r] show ?thesis by (simp add: c)
  next
    case False
    then obtain ss1 where s1: "transform valid ss (container_path c) (closure c) = Inr ss1"
      and r: "apply_changes valid ss1 cs = Inr ss'"
      using Cons.prems(2) by (auto simp: change_apply_eq split: sum.splits)
    from sim_step [OF Cons.prems(1) s1] obtain sc1 where
      c1: "transform valid sc (container_path c) (closure c) = Inr sc1"
      and sim1: "sim valid sc1 ss1" by blast
    from Cons.IH [OF sim1 r] show ?thesis using False c1 by (simp add: change_apply_eq)
  qed
qed

lemma Diff_apply_eq:
  "Diff_apply valid d t =
     (case apply_changes valid (new_proxy t) (changes d) of
        Inl err \<Rightarrow> Inl err
      | Inr s \<Rightarrow> commit_object valid (operations s) (current_path s) (current_object s))"
  by (simp add: Diff_apply_def commit_eq split: sum.splits)

lemma foldl_changes:
  "foldl (\<lambda>x y. x @ changes y) acc ds = acc @ concat (map changes ds)"
  by (induction ds arbitrary: acc) auto

text \<open>
  C3. When applying \<open>d1\<close> to \<open>t\<close> gives \<open>t1\<close> and applying \<open>d2\<close> to
  \<open>t1\<close> gives \<open>t2\<close>, applying the composition of \<open>d1\<close> and \<open>d2\<close> to \<open>t\<close>
  gives \<open>t2\<close>; the changes of a composition are the changes of its diffs, concatenated
  in the order of the input.
\<close>

theorem compose_apply:
  assumes "Diff_apply valid d1 t = Inr t1" and "Diff_apply valid d2 t1 = Inr t2"
  shows "Diff_apply valid (compose_diffs [d1, d2]) t = Inr t2 \<and>
         changes (compose_diffs ds) = concat (map changes ds)"
proof
  from assms(1) obtain s1 where a1: "apply_changes valid (new_proxy t) (changes d1) = Inr s1"
    and c1: "commit_object valid (operations s1) (current_path s1) (current_object s1) = Inr t1"
    by (auto simp: Diff_apply_eq split: sum.splits)
  from assms(2) obtain s2 where a2: "apply_changes valid (new_proxy t1) (changes d2) = Inr s2"
    and c2: "commit_object valid (operations s2) (current_path s2) (current_object s2) = Inr t2"
    by (auto simp: Diff_apply_eq split: sum.splits)
  have "sim valid s1 (new_proxy t1)"
    unfolding sim_def by (rule exI [of _ "operations s1"]) (simp add: new_proxy_def c1)
  from sim_apply_changes [OF this a2] obtain sc where
    a: "apply_changes valid s1 (changes d2) = Inr sc" and s: "sim valid sc s2" by blast
  have "commit_object valid (operations sc) (current_path sc) (current_object sc) = Inr t2"
    using s c2 by (rule sim_commit)
  then show "Diff_apply valid (compose_diffs [d1, d2]) t = Inr t2"
    using a1 a by (simp add: Diff_apply_eq compose_diffs_def apply_changes_append)
  show "changes (compose_diffs ds) = concat (map changes ds)"
    by (simp add: compose_diffs_def foldl_changes)
qed

theorem compose_apply_witness:
  "Diff_apply conf_valid (Diff [Set [AStr ''x''] (Scalar (AStr []))])
     (PClass ''Conf'' []) = Inr (PClass ''Conf'' [(AStr ''x'', Scalar (AStr []))]) \<and>
   Diff_apply conf_valid
     (Diff [Set [AStr ''x''] (Scalar (AStr ''ab'')), Set [AStr ''y''] (Scalar (AInt 1))])
     (PClass ''Conf'' [(AStr ''x'', Scalar (AStr []))]) =
     Inr (PClass ''Conf'' [(AStr ''x'', Scalar (AStr ''ab'')), (AStr ''y'', Scalar (AInt 1))]) \<and>
   Diff_apply conf_valid
     (compose_diffs
        [Diff [Set [AStr ''x''] (Scalar (AStr []))],
         Diff [Set [AStr ''x''] (Scalar (AStr ''ab'')), Set [AStr ''y''] (Scalar (AInt 1))]])
     (PClass ''Conf'' []) =
     Inr (PClass ''Conf'' [(AStr ''x'', Scalar (AStr ''ab'')), (AStr ''y'', Scalar (AInt 1))]) \<and>
   changes (compose_diffs
        [Diff [Set [AStr ''x''] (Scalar (AStr []))],
         Diff [Set [AStr ''x''] (Scalar (AStr ''ab'')), Set [AStr ''y''] (Scalar (AInt 1))]]) =
     concat (map changes
        [Diff [Set [AStr ''x''] (Scalar (AStr []))],
         Diff [Set [AStr ''x''] (Scalar (AStr ''ab'')), Set [AStr ''y''] (Scalar (AInt 1))]])"
proof -
  have h1: "Diff_apply conf_valid (Diff [Set [AStr ''x''] (Scalar (AStr []))])
     (PClass ''Conf'' []) = Inr (PClass ''Conf'' [(AStr ''x'', Scalar (AStr []))])"
    by (simp add: Diff_apply_def transform_def new_proxy_def commit_def conf_valid_def)
  have h2: "Diff_apply conf_valid
     (Diff [Set [AStr ''x''] (Scalar (AStr ''ab'')), Set [AStr ''y''] (Scalar (AInt 1))])
     (PClass ''Conf'' [(AStr ''x'', Scalar (AStr []))]) =
     Inr (PClass ''Conf'' [(AStr ''x'', Scalar (AStr ''ab'')), (AStr ''y'', Scalar (AInt 1))])"
    by (simp add: Diff_apply_def transform_def new_proxy_def commit_def conf_valid_def)
  from compose_apply [OF h1 h2] h1 h2 show ?thesis by blast
qed

end
